theory Spec2Isabelle
  imports Complex_Main "HOL-Library.Word" "HOL-Library.Log_Nat"
begin

section \<open>Go strings, runes and UTF-8\<close>

text \<open>
  A Go string is a sequence of bytes; it is modelled as a \<^typ>\<open>string\<close>, whose characters
  are bytes. A rune is a Unicode code point, modelled as a natural number. The functions of
  this section are those of the Go library that the dumper calls on strings:
  \<open>utf8.DecodeRuneInString\<close> (behind \<open>range\<close> over a string), \<open>utf8.EncodeRune\<close>
  (behind \<open>fmt.Sprintf("%c", r)\<close>), \<open>strings.ContainsAny\<close> and \<open>strings.Join\<close>.
\<close>

type_synonym rune = nat

definition RuneError :: rune where
  "RuneError = 0xFFFD"

definition byte :: "char \<Rightarrow> nat" where
  "byte c = of_char c"

definition between :: "nat \<Rightarrow> nat \<Rightarrow> char \<Rightarrow> bool" where
  "between lo hi c = (lo \<le> byte c \<and> byte c \<le> hi)"

text \<open>
  \<open>utf8.DecodeRuneInString\<close>: the first rune of a non-empty string and its width in bytes.
  An ill-formed or truncated sequence (a stray continuation byte, an overlong form, a
  surrogate, a value above U+10FFFF) decodes as \<open>(RuneError, 1)\<close>.
\<close>

definition second_lo :: "nat \<Rightarrow> nat" where
  "second_lo b0 = (if b0 = 0xE0 then 0xA0 else if b0 = 0xF0 then 0x90 else 0x80)"

definition second_hi :: "nat \<Rightarrow> nat" where
  "second_hi b0 = (if b0 = 0xED then 0x9F else if b0 = 0xF4 then 0x8F else 0xBF)"

fun decodeRune :: "string \<Rightarrow> rune \<times> nat" where
  "decodeRune [] = (RuneError, 0)"
| "decodeRune (c0 # cs) =
     (let b0 = byte c0 in
      if b0 < 0x80 then (b0, 1)
      else if 0xC2 \<le> b0 \<and> b0 \<le> 0xDF then
        (case cs of
           c1 # _ \<Rightarrow>
             if between 0x80 0xBF c1
             then ((b0 - 0xC0) * 64 + (byte c1 - 0x80), 2)
             else (RuneError, 1)
         | _ \<Rightarrow> (RuneError, 1))
      else if 0xE0 \<le> b0 \<and> b0 \<le> 0xEF then
        (case cs of
           c1 # c2 # _ \<Rightarrow>
             if between (second_lo b0) (second_hi b0) c1 \<and> between 0x80 0xBF c2
             then ((b0 - 0xE0) * 4096 + (byte c1 - 0x80) * 64 + (byte c2 - 0x80), 3)
             else (RuneError, 1)
         | _ \<Rightarrow> (RuneError, 1))
      else if 0xF0 \<le> b0 \<and> b0 \<le> 0xF4 then
        (case cs of
           c1 # c2 # c3 # _ \<Rightarrow>
             if between (second_lo b0) (second_hi b0) c1 \<and> between 0x80 0xBF c2
                \<and> between 0x80 0xBF c3
             then ((b0 - 0xF0) * 262144 + (byte c1 - 0x80) * 4096
                   + (byte c2 - 0x80) * 64 + (byte c3 - 0x80), 4)
             else (RuneError, 1)
         | _ \<Rightarrow> (RuneError, 1))
      else (RuneError, 1))"

text \<open>The runes that \<open>for _, r := range s\<close> yields, in order.\<close>

function runes :: "string \<Rightarrow> rune list" where
  "runes s = (if s = [] then [] else fst (decodeRune s) # runes (drop (snd (decodeRune s)) s))"
  by pat_completeness auto
termination
proof (relation "measure length")
  show "wf (measure length)" by simp
next
  fix s :: string
  assume "s \<noteq> []"
  then obtain c cs where s: "s = c # cs" by (cases s) auto
  have "0 < snd (decodeRune (c # cs))"
    by (simp add: Let_def split: list.splits)
  then show "(drop (snd (decodeRune s)) s, s) \<in> measure length"
    using s by simp
qed

declare runes.simps [simp del]

text \<open>
  \<open>utf8.EncodeRune\<close>, as \<open>fmt.Sprintf("%c", r)\<close> applies it: a surrogate or a value above
  U+10FFFF is written as the encoding of \<open>RuneError\<close>.
\<close>

definition encodeRune :: "rune \<Rightarrow> string" where
  "encodeRune r =
     (if r < 0x80 then [char_of r]
      else if r < 0x800 then [char_of (0xC0 + r div 64), char_of (0x80 + r mod 64)]
      else if 0x10FFFF < r \<or> (0xD800 \<le> r \<and> r \<le> 0xDFFF) then [CHR 0xEF, CHR 0xBF, CHR 0xBD]
      else if r < 0x10000 then
        [char_of (0xE0 + r div 4096), char_of (0x80 + r div 64 mod 64), char_of (0x80 + r mod 64)]
      else
        [char_of (0xF0 + r div 262144), char_of (0x80 + r div 4096 mod 64),
         char_of (0x80 + r div 64 mod 64), char_of (0x80 + r mod 64)])"

text \<open>
  \<open>strings.ContainsAny(s, chars)\<close>: some rune of \<open>s\<close> is a rune of \<open>chars\<close>
  (both strings are ranged over rune by rune).
\<close>

definition ContainsAny :: "string \<Rightarrow> string \<Rightarrow> bool" where
  "ContainsAny s chars = list_ex (\<lambda>c. c \<in> set (runes chars)) (runes s)"

text \<open>\<open>strings.Join(elems, sep)\<close>.\<close>

fun Join :: "string list \<Rightarrow> string \<Rightarrow> string" where
  "Join [] sep = []"
| "Join [x] sep = x"
| "Join (x # y # ys) sep = x @ sep @ Join (y # ys) sep"

section \<open>The value encoder\<close>

text \<open>
  The Go string literal \<open>stringOfBackslashAndQuoteChars\<close>, escape by escape. Every
  \<open>\u\<close> escape stands for the UTF-8 encoding of its code point. After \<open>\ufe68\<close> the
  source reads \<open>uff3c\<close> with no backslash before it: these are the five ASCII characters
  \<open>u\<close>, \<open>f\<close>, \<open>f\<close>, \<open>3\<close>, \<open>c\<close>, not the code point U+FF3C.
\<close>

definition stringOfBackslashAndQuoteChars :: string where
  "stringOfBackslashAndQuoteChars =
     concat (map encodeRune [0x5C, 0xA5, 0x160, 0x20A9, 0x2216, 0xFE68])
     @ ''uff3c''
     @ concat (map encodeRune
         [0x22, 0x27, 0x60, 0xB4, 0x2B9, 0x2BA, 0x2BB, 0x2BC, 0x2C8, 0x2CA, 0x2CB, 0x2D9,
          0x300, 0x301, 0x2018, 0x2019, 0x201A, 0x2032, 0x2035, 0x275B, 0x275C, 0xFF07])"

definition needsQuoting :: "string \<Rightarrow> bool" where
  "needsQuoting s = (if ContainsAny s stringOfBackslashAndQuoteChars then True else False)"

text \<open>
  The body of the loop \<open>for _, char_c := range colValue\<close>: the rune is formatted with
  \<open>%c\<close>, and a backslash is written to the buffer before it when \<open>needsQuoting\<close> holds
  of the formatted rune.
\<close>

definition escapeRune :: "rune \<Rightarrow> string" where
  "escapeRune char_c =
     (let c = encodeRune char_c
      in (if needsQuoting c then [CHR 0x5C] else []) @ c)"

text \<open>
  The encoding of one column value (\<open>sql.RawBytes\<close>, \<open>None\<close> for \<open>nil\<close>), lines 150 to
  168 of the source. The result is the value's text and the new content of
  \<open>entry.colBuffer\<close>, which the escaping branch replaces by a fresh buffer.
\<close>

definition encodeCol :: "string option \<Rightarrow> string option \<Rightarrow> string \<times> string option" where
  "encodeCol colBuffer col =
     (case col of
        None \<Rightarrow> (''NULL'', colBuffer)
      | Some colValue \<Rightarrow>
          if \<not> needsQuoting colValue
          then ([CHR 0x27] @ colValue @ [CHR 0x27], colBuffer)
          else (let buf = concat (map escapeRune (runes colValue))
                in ([CHR 0x27] @ buf @ [CHR 0x27], Some buf)))"

(*PROPERTIES*)

section \<open>Properties of the UTF-8 functions\<close>

definition validRune :: "rune \<Rightarrow> bool" where
  "validRune r = (r \<le> 0x10FFFF \<and> (r < 0xD800 \<or> 0xDFFF < r))"

lemma byte_char_of: "n < 256 \<Longrightarrow> byte (char_of n) = n"
  by (simp add: byte_def)

lemma byte_less: "byte c < 256"
  by (simp add: byte_def)

lemma decode2:
  "2 \<le> a \<Longrightarrow> a < 32 \<Longrightarrow> b < 64 \<Longrightarrow>
   decodeRune (char_of (0xC0 + a) # char_of (0x80 + b) # t) = (a * 64 + b, 2)"
  by (simp add: byte_char_of between_def Let_def)

lemma decode3:
  "a < 16 \<Longrightarrow> b < 64 \<Longrightarrow> c < 64 \<Longrightarrow> (a = 0 \<Longrightarrow> 32 \<le> b) \<Longrightarrow> (a = 13 \<Longrightarrow> b < 32) \<Longrightarrow>
   decodeRune (char_of (0xE0 + a) # char_of (0x80 + b) # char_of (0x80 + c) # t)
     = (a * 4096 + b * 64 + c, 3)"
  by (auto simp add: byte_char_of between_def Let_def second_lo_def second_hi_def)

lemma decode4:
  "a \<le> 4 \<Longrightarrow> b < 64 \<Longrightarrow> c < 64 \<Longrightarrow> d < 64 \<Longrightarrow> (a = 0 \<Longrightarrow> 16 \<le> b) \<Longrightarrow> (a = 4 \<Longrightarrow> b < 16) \<Longrightarrow>
   decodeRune (char_of (0xF0 + a) # char_of (0x80 + b) # char_of (0x80 + c) # char_of (0x80 + d) # t)
     = (a * 262144 + b * 4096 + c * 64 + d, 4)"
  by (auto simp add: byte_char_of between_def Let_def second_lo_def second_hi_def)

lemma split3:
  fixes r :: nat
  shows "r div 4096 * 4096 + r div 64 mod 64 * 64 + r mod 64 = r"
proof -
  define q where "q = r div 64"
  define a where "a = q div 64"
  define b where "b = q mod 64"
  define c where "c = r mod 64"
  have q: "q = a * 64 + b" by (simp add: a_def b_def)
  have r: "r = q * 64 + c" by (simp add: q_def c_def)
  have a: "r div 4096 = a" by (simp add: a_def q_def div_mult2_eq)
  have "a * 4096 + b * 64 + c = r" by (simp add: r q)
  then show ?thesis by (simp only: a b_def [symmetric] c_def [symmetric] q_def [symmetric])
qed

lemma split4:
  fixes r :: nat
  shows "r div 262144 * 262144 + r div 4096 mod 64 * 4096 + r div 64 mod 64 * 64 + r mod 64 = r"
proof -
  define p where "p = r div 4096"
  define a where "a = p div 64"
  define b where "b = p mod 64"
  have p: "p = a * 64 + b" by (simp add: a_def b_def)
  have a: "r div 262144 = a" by (simp add: a_def p_def div_mult2_eq)
  have "a * 262144 + b * 4096 = p * 4096" by (simp add: p)
  then have "r div 262144 * 262144 + r div 4096 mod 64 * 4096 = r div 4096 * 4096"
    by (simp only: a b_def [symmetric] p_def [symmetric])
  then show ?thesis using split3 [of r] by simp
qed

lemma lead3:
  fixes r :: nat
  assumes "0x800 \<le> r" "r div 4096 = 0"
  shows "32 \<le> r div 64 mod 64"
proof -
  have "r < 4096" using assms(2) by (simp add: div_eq_0_iff)
  then have "r div 64 < 64" by simp
  moreover have "32 \<le> r div 64" using assms(1) by simp
  ultimately show ?thesis by simp
qed

lemma surr3:
  fixes r :: nat
  assumes "r < 0xD800 \<or> 0xDFFF < r" "r div 4096 = 13"
  shows "r div 64 mod 64 < 32"
proof -
  have "13 * 4096 \<le> r" "r < 14 * 4096" using assms(2) by linarith+
  then have r: "r < 0xD800" using assms(1) by simp
  have "r div 64 = 13 * 64 + r div 64 mod 64"
    using split3 [of r] assms(2) by linarith
  moreover have "r div 64 < 864" using r by simp
  ultimately show ?thesis by linarith
qed

lemma lead4:
  fixes r :: nat
  assumes "0x10000 \<le> r" "r div 262144 = 0"
  shows "16 \<le> r div 4096 mod 64"
proof -
  have "r < 262144" using assms(2) by (simp add: div_eq_0_iff)
  then have "r div 4096 < 64" by simp
  moreover have "16 \<le> r div 4096" using assms(1) by simp
  ultimately show ?thesis by simp
qed

lemma top4:
  fixes r :: nat
  assumes "r \<le> 0x10FFFF" "r div 262144 = 4"
  shows "r div 4096 mod 64 < 16"
proof -
  have "r div 4096 < 272" using assms(1) by simp
  moreover have "r div 4096 div 64 = 4" using assms(2) by (simp add: div_mult2_eq)
  then have "r div 4096 = 4 * 64 + r div 4096 mod 64"
    using div_mult_mod_eq [of "r div 4096" 64] by linarith
  ultimately show ?thesis by linarith
qed

lemma decodeRune_encodeRune:
  assumes "validRune r"
  shows "decodeRune (encodeRune r @ t) = (r, length (encodeRune r))"
proof -
  consider "r < 0x80" | "0x80 \<le> r" "r < 0x800" | "0x800 \<le> r" "r < 0x10000" | "0x10000 \<le> r"
    by linarith
  then show ?thesis
  proof cases
    case 1
    then show ?thesis by (simp add: encodeRune_def byte_char_of)
  next
    case 2
    have e: "encodeRune r = [char_of (0xC0 + r div 64), char_of (0x80 + r mod 64)]"
      using 2 by (simp add: encodeRune_def)
    have "decodeRune (char_of (0xC0 + r div 64) # char_of (0x80 + r mod 64) # t)
            = (r div 64 * 64 + r mod 64, 2)"
      using 2 by (intro decode2) simp_all
    then show ?thesis by (simp add: e)
  next
    case 3
    have v: "r < 0xD800 \<or> 0xDFFF < r" using assms by (simp add: validRune_def)
    have e: "encodeRune r = [char_of (0xE0 + r div 4096), char_of (0x80 + r div 64 mod 64),
               char_of (0x80 + r mod 64)]"
      using 3 v by (auto simp add: encodeRune_def)
    have "decodeRune (char_of (0xE0 + r div 4096) # char_of (0x80 + r div 64 mod 64)
               # char_of (0x80 + r mod 64) # t)
            = (r div 4096 * 4096 + r div 64 mod 64 * 64 + r mod 64, 3)"
    proof (intro decode3)
      show "r div 4096 < 16" using 3 by simp
      show "r div 4096 = 0 \<Longrightarrow> 32 \<le> r div 64 mod 64" using 3 lead3 by simp
      show "r div 4096 = 13 \<Longrightarrow> r div 64 mod 64 < 32" using v surr3 by simp
    qed simp_all
    then show ?thesis by (simp only: e split3) simp
  next
    case 4
    have v: "r \<le> 0x10FFFF" using assms by (simp add: validRune_def)
    have e: "encodeRune r = [char_of (0xF0 + r div 262144), char_of (0x80 + r div 4096 mod 64),
               char_of (0x80 + r div 64 mod 64), char_of (0x80 + r mod 64)]"
      using 4 v by (auto simp add: encodeRune_def)
    have "decodeRune (char_of (0xF0 + r div 262144) # char_of (0x80 + r div 4096 mod 64)
               # char_of (0x80 + r div 64 mod 64) # char_of (0x80 + r mod 64) # t)
            = (r div 262144 * 262144 + r div 4096 mod 64 * 4096 + r div 64 mod 64 * 64 + r mod 64, 4)"
    proof (intro decode4)
      show "r div 262144 \<le> 4" using v by simp
      show "r div 262144 = 0 \<Longrightarrow> 16 \<le> r div 4096 mod 64" using 4 lead4 by simp
      show "r div 262144 = 4 \<Longrightarrow> r div 4096 mod 64 < 16" using v top4 by simp
    qed simp_all
    then show ?thesis by (simp only: e split4) simp
  qed
qed

lemma runes_Nil [simp]: "runes [] = []"
  by (subst runes.simps) simp

lemma runes_Cons:
  "runes (c # cs)
     = fst (decodeRune (c # cs)) # runes (drop (snd (decodeRune (c # cs))) (c # cs))"
  by (subst runes.simps) simp

lemma encodeRune_ne: "encodeRune r \<noteq> []"
  by (simp add: encodeRune_def)

lemma runes_encodeRune_append:
  assumes "validRune r"
  shows "runes (encodeRune r @ t) = r # runes t"
proof -
  obtain c cs where e: "encodeRune r = c # cs" using encodeRune_ne [of r] by (cases "encodeRune r") auto
  have d: "decodeRune (c # cs @ t) = (r, length (c # cs))"
    using decodeRune_encodeRune [OF assms, of t] e by simp
  show ?thesis unfolding e by (simp only: append_Cons runes_Cons d fst_conv snd_conv) simp
qed

lemma valid2:
  fixes b0 b1 :: nat
  shows "b0 \<le> 0xDF \<Longrightarrow> b1 \<le> 0xBF \<Longrightarrow> validRune ((b0 - 0xC0) * 64 + (b1 - 0x80))"
  unfolding validRune_def by arith

lemma valid3:
  fixes b0 b1 b2 :: nat
  assumes "0xE0 \<le> b0" "b0 \<le> 0xEF" "0x80 \<le> b1" "b1 \<le> 0xBF" "b0 = 0xED \<Longrightarrow> b1 \<le> 0x9F"
    "0x80 \<le> b2" "b2 \<le> 0xBF"
  shows "validRune ((b0 - 0xE0) * 4096 + (b1 - 0x80) * 64 + (b2 - 0x80))"
proof -
  consider "b0 \<le> 0xEC" | "b0 = 0xED" | "0xEE \<le> b0" by linarith
  then show ?thesis
  proof cases
    case 1
    then show ?thesis using assms unfolding validRune_def by arith
  next
    case 2
    then have "b1 \<le> 0x9F" using assms(5) by simp
    then show ?thesis using 2 assms(3,6,7) unfolding validRune_def by arith
  next
    case 3
    then show ?thesis using assms unfolding validRune_def by arith
  qed
qed

lemma valid4:
  fixes b0 b1 b2 b3 :: nat
  assumes "0xF0 \<le> b0" "b0 \<le> 0xF4" "0x80 \<le> b1" "b1 \<le> 0xBF" "b0 = 0xF0 \<Longrightarrow> 0x90 \<le> b1" 
    "b0 = 0xF4 \<Longrightarrow> b1 \<le> 0x8F"
    "0x80 \<le> b2" "b2 \<le> 0xBF" "0x80 \<le> b3" "b3 \<le> 0xBF"
  shows "validRune ((b0 - 0xF0) * 262144 + (b1 - 0x80) * 4096 + (b2 - 0x80) * 64 + (b3 - 0x80))"
proof -
  consider "b0 = 0xF0" | "0xF1 \<le> b0" "b0 \<le> 0xF3" | "b0 = 0xF4" using assms(1,2) by linarith
  then show ?thesis
  proof cases
    case 1
    then have "0x90 \<le> b1" using assms(5) by simp
    then show ?thesis using 1 assms(4,7,8,9,10) unfolding validRune_def by arith
  next
    case 2
    then show ?thesis using assms(3,4,7,8,9,10) unfolding validRune_def by arith
  next
    case 3
    then have "b1 \<le> 0x8F" using assms(6) by simp
    then show ?thesis using 3 assms(3,7,8,9,10) unfolding validRune_def by arith
  qed
qed

section \<open>The value encoder: NULL and the empty string\<close>

lemma needsQuoting_Nil: "\<not> needsQuoting []"
  by (simp add: needsQuoting_def ContainsAny_def)

text \<open>
  Claim C4. A NULL column value (a nil \<open>sql.RawBytes\<close>) is encoded as the bare token
  \<open>NULL\<close>; the empty string is encoded as two single quotes; and no non-NULL value at
  all is encoded as the token that NULL is encoded as, since the encoding of a non-NULL
  value always starts with a single quote.
\<close>

theorem C4_null_distinct_from_empty:
  "fst (encodeCol buf None) = ''NULL''
   \<and> fst (encodeCol buf (Some [])) = [CHR 0x27, CHR 0x27]
   \<and> fst (encodeCol buf (Some v)) \<noteq> fst (encodeCol buf None)"
  by (simp add: encodeCol_def needsQuoting_Nil Let_def)

lemma validRune_RuneError: "validRune RuneError"
  by (simp add: validRune_def RuneError_def)

lemma validRune_ascii: "r < 0x80 \<Longrightarrow> validRune r"
  by (simp add: validRune_def)

lemma decodeRune_valid: "validRune (fst (decodeRune s))"
proof (cases s)
  case Nil
  then show ?thesis by (simp add: validRune_RuneError)
next
  case (Cons c cs)
  define b0 where "b0 = byte c"
  consider "b0 < 0x80" | "0x80 \<le> b0" "b0 < 0xC2" | "0xC2 \<le> b0" "b0 \<le> 0xDF"
    | "0xE0 \<le> b0" "b0 \<le> 0xEF" | "0xF0 \<le> b0" "b0 \<le> 0xF4" | "0xF5 \<le> b0"
    by linarith
  then show ?thesis
  proof cases
    case 1
    then show ?thesis unfolding Cons by (simp add: b0_def [symmetric] Let_def validRune_ascii)
  next
    case 2
    then show ?thesis unfolding Cons by (simp add: b0_def [symmetric] Let_def validRune_RuneError)
  next
    case 3
    have "validRune ((b0 - 0xC0) * 64 + (byte c1 - 0x80))" if "between 0x80 0xBF c1" for c1
      using 3 that by (intro valid2) (simp_all add: between_def)
    with 3 show ?thesis unfolding Cons
      by (simp add: b0_def [symmetric] Let_def validRune_RuneError split: list.split)
  next
    case 4
    have "validRune ((b0 - 0xE0) * 4096 + (byte c1 - 0x80) * 64 + (byte c2 - 0x80))"
      if "between (second_lo b0) (second_hi b0) c1" "between 0x80 0xBF c2" for c1 c2
    proof (rule valid3)
      show "0xE0 \<le> b0" "b0 \<le> 0xEF" using 4 by simp_all
      show "0x80 \<le> byte c1" using that(1) by (simp add: between_def second_lo_def split: if_splits)
      show "byte c1 \<le> 0xBF" using that(1) by (simp add: between_def second_hi_def split: if_splits)
      show "b0 = 0xED \<Longrightarrow> byte c1 \<le> 0x9F" using that(1) by (simp add: between_def second_hi_def)
      show "0x80 \<le> byte c2" "byte c2 \<le> 0xBF" using that(2) by (simp_all add: between_def)
    qed
    with 4 show ?thesis unfolding Cons
      by (simp add: b0_def [symmetric] Let_def validRune_RuneError split: list.split)
  next
    case 5
    have "validRune ((b0 - 0xF0) * 262144 + (byte c1 - 0x80) * 4096 + (byte c2 - 0x80) * 64
                     + (byte c3 - 0x80))"
      if "between (second_lo b0) (second_hi b0) c1" "between 0x80 0xBF c2" "between 0x80 0xBF c3"
      for c1 c2 c3
    proof (rule valid4)
      show "0xF0 \<le> b0" "b0 \<le> 0xF4" using 5 by simp_all
      show "0x80 \<le> byte c1" using that(1) by (simp add: between_def second_lo_def split: if_splits)
      show "byte c1 \<le> 0xBF" using that(1) by (simp add: between_def second_hi_def split: if_splits)
      show "b0 = 0xF0 \<Longrightarrow> 0x90 \<le> byte c1" using that(1) by (simp add: between_def second_lo_def)
      show "b0 = 0xF4 \<Longrightarrow> byte c1 \<le> 0x8F" using that(1) by (simp add: between_def second_hi_def)
      show "0x80 \<le> byte c2" "byte c2 \<le> 0xBF" using that(2) by (simp_all add: between_def)
      show "0x80 \<le> byte c3" "byte c3 \<le> 0xBF" using that(3) by (simp_all add: between_def)
    qed
    with 5 show ?thesis unfolding Cons
      by (simp add: b0_def [symmetric] Let_def validRune_RuneError split: list.split)
  next
    case 6
    then show ?thesis unfolding Cons by (simp add: b0_def [symmetric] Let_def validRune_RuneError)
  qed
qed

lemma decodeRune_width: "s \<noteq> [] \<Longrightarrow> 0 < snd (decodeRune s)"
  by (cases s) (simp_all add: Let_def split: list.splits)

lemma runes_valid: "r \<in> set (runes s) \<Longrightarrow> validRune r"
proof (induction s arbitrary: r rule: runes.induct)
  case (1 s)
  show ?case
  proof (cases "s = []")
    case True
    with 1(2) show ?thesis by (simp add: runes_Nil)
  next
    case False
    from 1(2) have "r = fst (decodeRune s) \<or> r \<in> set (runes (drop (snd (decodeRune s)) s))"
      by (subst (asm) runes.simps) (simp add: False)
    then show ?thesis using 1(1) [OF False] decodeRune_valid by blast
  qed
qed

lemma runes_encodeRune: "validRune r \<Longrightarrow> runes (encodeRune r) = [r]"
  using runes_encodeRune_append [of r "[]"] by simp

definition quoteRunes :: "rune list" where
  "quoteRunes = [0x5C, 0xA5, 0x160, 0x20A9, 0x2216, 0xFE68, 0x75, 0x66, 0x66, 0x33, 0x63,
     0x22, 0x27, 0x60, 0xB4, 0x2B9, 0x2BA, 0x2BB, 0x2BC, 0x2C8, 0x2CA, 0x2CB, 0x2D9,
     0x300, 0x301, 0x2018, 0x2019, 0x201A, 0x2032, 0x2035, 0x275B, 0x275C, 0xFF07]"

lemma runes_concat_encodeRune:
  "list_all validRune rs \<Longrightarrow> runes (concat (map encodeRune rs) @ t) = rs @ runes t"
  by (induction rs) (simp_all add: runes_encodeRune_append)

lemma runes_ascii_Cons: "byte c < 0x80 \<Longrightarrow> runes (c # cs) = byte c # runes cs"
  by (simp add: runes_Cons)

lemma runes_uff3c:
  "runes (CHR ''u'' # CHR ''f'' # CHR ''f'' # CHR ''3'' # CHR ''c'' # t)
     = 0x75 # 0x66 # 0x66 # 0x33 # 0x63 # runes t"
  by (simp add: runes_ascii_Cons byte_def)

lemma runes_stringOfBackslashAndQuoteChars:
  "runes stringOfBackslashAndQuoteChars = quoteRunes"
proof -
  have a: "list_all validRune [0x5C, 0xA5, 0x160, 0x20A9, 0x2216, 0xFE68]"
    by (simp add: validRune_def)
  have b: "list_all validRune [0x22, 0x27, 0x60, 0xB4, 0x2B9, 0x2BA, 0x2BB, 0x2BC, 0x2C8, 0x2CA, 0x2CB, 0x2D9,
          0x300, 0x301, 0x2018, 0x2019, 0x201A, 0x2032, 0x2035, 0x275B, 0x275C, 0xFF07]"
    by (simp add: validRune_def)
  show ?thesis
    unfolding stringOfBackslashAndQuoteChars_def
    by (simp only: runes_concat_encodeRune [OF a] runes_uff3c append_assoc
          runes_concat_encodeRune [OF b, of "[]", simplified append_Nil2] runes_Nil
          quoteRunes_def append.simps)
qed

section \<open>Properties of the value encoder\<close>

lemma needsQuoting_iff: "needsQuoting s \<longleftrightarrow> (\<exists>r \<in> set (runes s). r \<in> set quoteRunes)"
  by (simp add: needsQuoting_def ContainsAny_def runes_stringOfBackslashAndQuoteChars
        list_ex_iff)

lemma needsQuoting_encodeRune:
  "validRune r \<Longrightarrow> needsQuoting (encodeRune r) \<longleftrightarrow> r \<in> set quoteRunes"
  by (simp add: needsQuoting_iff runes_encodeRune)

lemma escapeRune_valid:
  "validRune r \<Longrightarrow>
   escapeRune r = (if r \<in> set quoteRunes then [CHR 0x5C] else []) @ encodeRune r"
  by (simp add: escapeRune_def Let_def needsQuoting_encodeRune)

lemma encodeRune_byte: "byte c < 0x80 \<Longrightarrow> encodeRune (byte c) = [c]"
  by (simp add: encodeRune_def byte_def)

lemma needsQuoting_ascii_Cons:
  "byte c < 0x80 \<Longrightarrow> needsQuoting (c # cs) \<longleftrightarrow> byte c \<in> set quoteRunes \<or> needsQuoting cs"
  by (simp add: needsQuoting_iff runes_ascii_Cons)

lemma escape_ascii_Cons:
  "byte c < 0x80 \<Longrightarrow>
   concat (map escapeRune (runes (c # cs)))
     = (if byte c \<in> set quoteRunes then [CHR 0x5C] else []) @ c # concat (map escapeRune (runes cs))"
  by (simp add: runes_ascii_Cons escapeRune_valid validRune_def encodeRune_byte)

lemma encodeCol_plain:
  "\<not> needsQuoting v \<Longrightarrow> encodeCol buf (Some v) = ([CHR 0x27] @ v @ [CHR 0x27], buf)"
  by (simp add: encodeCol_def)

lemma encodeCol_escaped:
  assumes "needsQuoting v"
  shows "fst (encodeCol buf (Some v))
           = [CHR 0x27]
             @ concat (map (\<lambda>r. (if r \<in> set quoteRunes then [CHR 0x5C] else []) @ encodeRune r)
                 (runes v))
             @ [CHR 0x27]"
proof -
  have m: "map escapeRune (runes v)
          = map (\<lambda>r. (if r \<in> set quoteRunes then [CHR 0x5C] else []) @ encodeRune r) (runes v)"
    by (rule map_cong [OF refl]) (simp add: escapeRune_valid runes_valid)
  show ?thesis using assms by (simp add: encodeCol_def Let_def m)
qed

text \<open>
  Claim C2. The claim describes the set as backslash, quotes and look-alike quote or
  backslash characters. The set in the code also holds the ASCII letters \<open>u\<close>, \<open>f\<close>,
  \<open>c\<close> and the digit \<open>3\<close> (the escape \<open>\uff3c\<close> is written without its backslash). The
  value \<open>coffee\<close> has no backslash, no quote and no look-alike character, and the encoder
  writes a backslash before its \<open>c\<close> and before each \<open>f\<close>.
\<close>

theorem C2_plain_value_gets_backslashes:
  "fst (encodeCol buf (Some ''coffee''))
     = [CHR 0x27, CHR 0x5C, CHR ''c'', CHR ''o'', CHR 0x5C, CHR ''f'', CHR 0x5C, CHR ''f'',
        CHR ''e'', CHR ''e'', CHR 0x27]"
  by (simp add: encodeCol_def Let_def needsQuoting_ascii_Cons escape_ascii_Cons byte_def
        quoteRunes_def)

text \<open>
  Claim C3. The value \<open>O'Brien\<close> is encoded as the claim says. The value \<open>cat's\<close> holds
  a single quote, so it is escaped rune by rune; its \<open>c\<close> is not a quote or a backslash,
  and the encoder writes a backslash before it all the same, for the reason given at C2.
\<close>

theorem C3_letter_escaped_beside_quote:
  "fst (encodeCol buf (Some ''O'Brien''))
     = [CHR 0x27] @ ''O'' @ [CHR 0x5C, CHR 0x27] @ ''Brien'' @ [CHR 0x27]
   \<and> fst (encodeCol buf (Some ''cat's''))
     = [CHR 0x27, CHR 0x5C] @ ''cat'' @ [CHR 0x5C, CHR 0x27] @ ''s'' @ [CHR 0x27]"
  by (simp add: encodeCol_def Let_def needsQuoting_ascii_Cons escape_ascii_Cons byte_def
        quoteRunes_def)

end
